theory Spec2Isabelle
  imports Main
begin

section \<open>The cache of \<^verbatim>\<open>cache/cache.go\<close>\<close>

text \<open>
  The package keeps a Go map from string keys to timestamped values, bounded by a
  size and swept by a background goroutine. Every operation that touches the map runs
  under the cache's mutex, so each one is modelled as an atomic function from the cache
  before the call to the cache after it.

  Two things the Go runtime decides are made parameters of the operations that depend
  on them:
  \<^item> every call of \<^verbatim>\<open>time.Now()\<close> is an argument (the clock reading it returned);
  \<^item> every \<^verbatim>\<open>range\<close> over the map takes the list of keys in the order in which the
    runtime visits them (Go leaves the order unspecified).
\<close>

subsection \<open>Time\<close>

text \<open>
  All timestamps of the cache come from \<^verbatim>\<open>time.Now()\<close>, so they carry a reading of the
  monotonic clock, and \<^verbatim>\<open>Before\<close> and \<^verbatim>\<open>Sub\<close> compare and subtract these readings. A
  \<^verbatim>\<open>time.Time\<close> is modelled by its monotonic reading in nanoseconds, a
  \<^verbatim>\<open>time.Duration\<close> by its number of nanoseconds. Readings are non-negative and below
  \<open>2 ^ 63\<close>, so the saturation of \<^verbatim>\<open>Sub\<close> at the ends of the int64 range is never
  reached and is not modelled.
\<close>

type_synonym Time = int
type_synonym Duration = int

definition Before :: "Time \<Rightarrow> Time \<Rightarrow> bool" where
  "Before t u = (t < u)"

definition Sub :: "Time \<Rightarrow> Time \<Rightarrow> Duration" where
  "Sub t u = t - u"

subsection \<open>Data\<close>

text \<open>A value of Go's type \<^verbatim>\<open>any\<close>: \<^verbatim>\<open>nil\<close> or a value of the caller's type.\<close>

datatype 'v any = Nil | Any 'v

text \<open>\<^verbatim>\<open>type entry struct { value any; time time.Time }\<close>\<close>

record 'v entry =
  val :: "'v any"
  time :: Time

text \<open>
  \<^verbatim>\<open>type Cache struct { store; size; ttl; mu; cancel }\<close>. The mutex is the atomicity of
  the operations. \<open>cancelled\<close> is the state of the context that \<^verbatim>\<open>cancel\<close> closes over:
  it is true once \<^verbatim>\<open>cancel()\<close> has been called.
\<close>

record 'v Cache =
  store :: "string \<rightharpoonup> 'v entry"
  size_c :: int
  ttl :: Duration
  cancelled :: bool

datatype error = Error string

text \<open>The goroutines a call starts with \<^verbatim>\<open>go\<close>.\<close>

datatype goroutine = TtlEnforcer

text \<open>\<^verbatim>\<open>len(m)\<close> of a Go map: the number of its keys.\<close>

definition len :: "(string \<rightharpoonup> 'e) \<Rightarrow> int" where
  "len m = int (card (dom m))"

text \<open>
  \<open>range_order m ks\<close>: the list \<open>ks\<close> is an order in which a \<^verbatim>\<open>range\<close> over the map
  \<open>m\<close> can visit its keys: every key once.
\<close>

definition range_order :: "(string \<rightharpoonup> 'e) \<Rightarrow> string list \<Rightarrow> bool" where
  "range_order m ks = (distinct ks \<and> set ks = dom m)"

subsection \<open>Operations\<close>

text \<open>
  \<^verbatim>\<open>New\<close> returns the error, or the cache together with the goroutines it has started.
\<close>

definition New :: "int \<Rightarrow> Duration \<Rightarrow> error + ('v Cache \<times> goroutine list)" where
  "New size' ttl' =
     (if size' \<le> 0 then Inl (Error ''size should be greater than zero'')
      else if ttl' \<le> 0 then Inl (Error ''ttl should be greater than zero'')
      else Inr (\<lparr>store = Map.empty, size_c = size', ttl = ttl', cancelled = False\<rparr>,
                [TtlEnforcer]))"

definition Close :: "'v Cache \<Rightarrow> 'v Cache" where
  "Close c = c\<lparr>cancelled := True\<rparr>"

text \<open>
  \<^verbatim>\<open>Get\<close> returns its two results and the cache after the call (the read lock is
  taken and released; nothing else is written).
\<close>

definition Get :: "'v Cache \<Rightarrow> string \<Rightarrow> ('v any \<times> bool) \<times> 'v Cache" where
  "Get c key =
     (case store c key of
        Some value \<Rightarrow> ((val value, True), c)
      | None \<Rightarrow> ((Nil, False), c))"

text \<open>
  One iteration of the loop of \<^verbatim>\<open>evictLRU\<close> on the key \<open>k\<close>, with the running
  \<^verbatim>\<open>minTime, key\<close>.
\<close>

definition evictLRU_step ::
  "(string \<rightharpoonup> 'v entry) \<Rightarrow> string \<Rightarrow> Time \<times> string \<Rightarrow> Time \<times> string" where
  "evictLRU_step m k acc =
     (case m k of
        None \<Rightarrow> acc
      | Some v \<Rightarrow> if Before (time v) (fst acc) then (time v, k) else acc)"

text \<open>
  \<^verbatim>\<open>evictLRU\<close>: \<open>now\<close> is the reading of its \<^verbatim>\<open>time.Now()\<close>, \<open>ks\<close> the order of its
  \<^verbatim>\<open>range\<close>. The scan starts from \<^verbatim>\<open>minTime, key := time.Now(), ""\<close> and the key it
  ends with is deleted.
\<close>

definition evictLRU_scan :: "(string \<rightharpoonup> 'v entry) \<Rightarrow> string list \<Rightarrow> Time \<Rightarrow> Time \<times> string" where
  "evictLRU_scan m ks now = fold (evictLRU_step m) ks (now, '''')"

definition evictLRU :: "'v Cache \<Rightarrow> string list \<Rightarrow> Time \<Rightarrow> 'v Cache" where
  "evictLRU c ks now =
     (let (minTime, key) = evictLRU_scan (store c) ks now
      in c\<lparr>store := (store c)(key := None)\<rparr>)"

text \<open>
  \<^verbatim>\<open>Set\<close>: \<open>ks\<close> and \<open>evictNow\<close> are the range order and the clock reading of the call
  of \<^verbatim>\<open>evictLRU\<close> (used only when it is called), \<open>now\<close> the reading of the
  \<^verbatim>\<open>time.Now()\<close> that stamps the new entry.
\<close>

definition Set :: "'v Cache \<Rightarrow> string \<Rightarrow> 'v any \<Rightarrow> string list \<Rightarrow> Time \<Rightarrow> Time \<Rightarrow> 'v Cache" where
  "Set c key value ks evictNow now =
     (let c1 = (if len (store c) = size_c c then evictLRU c ks evictNow else c);
          newEntry = \<lparr>val = value, time = now\<rparr>
      in c1\<lparr>store := (store c1)(key \<mapsto> newEntry)\<rparr>)"

text \<open>
  One iteration of the loop of \<^verbatim>\<open>evictExpired\<close>. A key deleted before the range
  reaches it is not produced.
\<close>

definition evictExpired_step ::
  "Duration \<Rightarrow> Time \<Rightarrow> string \<Rightarrow> (string \<rightharpoonup> 'v entry) \<Rightarrow> (string \<rightharpoonup> 'v entry)" where
  "evictExpired_step d now k m =
     (case m k of
        None \<Rightarrow> m
      | Some v \<Rightarrow> if Sub now (time v) > d then m(k := None) else m)"

definition evictExpired :: "'v Cache \<Rightarrow> string list \<Rightarrow> Time \<Rightarrow> 'v Cache" where
  "evictExpired c ks now = c\<lparr>store := fold (evictExpired_step (ttl c) now) ks (store c)\<rparr>"

subsection \<open>The background goroutine\<close>

text \<open>
  \<^verbatim>\<open>ttlEnforcer\<close> creates one timer with \<^verbatim>\<open>time.NewTimer(c.ttl)\<close> and then loops over a
  \<^verbatim>\<open>select\<close> on the timer's channel and on \<^verbatim>\<open>ctx.Done()\<close>. The state of the running
  program is the cache together with the state of this goroutine:
  \<^item> \<open>timerC\<close>: the one value that \<^verbatim>\<open>NewTimer\<close> sends on \<^verbatim>\<open>timer.C\<close>, as the time from
    which it can be received; \<open>None\<close> once it has been received (the source never calls
    \<^verbatim>\<open>Reset\<close>, so nothing is sent again);
  \<^item> \<open>looping\<close>: the goroutine has not returned.
\<close>

record 'v world =
  cache :: "'v Cache"
  timerC :: "Time option"
  looping :: bool

text \<open>The goroutine starts at time \<open>t0\<close>: the timer is created, the loop is entered.\<close>

definition ttlEnforcer_start :: "'v Cache \<Rightarrow> Time \<Rightarrow> 'v world" where
  "ttlEnforcer_start c t0 = \<lparr>cache = c, timerC = Some (t0 + ttl c), looping = True\<rparr>"

text \<open>
  The case that a \<^verbatim>\<open>select\<close> of the loop takes: \<^verbatim>\<open>case <-timer.C\<close>, with the range
  order and the clock reading of the \<^verbatim>\<open>evictExpired\<close> it runs, or \<^verbatim>\<open>case <-ctx.Done()\<close>.
\<close>

datatype select_case = Case_TimerC "string list" Time | Case_Done

text \<open>
  One iteration of the loop of \<^verbatim>\<open>ttlEnforcer\<close>. The result is \<open>None\<close> when the
  \<^verbatim>\<open>select\<close> cannot take that case in this state: the timer's value is not there (yet,
  or any more), the context is not cancelled, or the goroutine has returned.
\<close>

fun ttlEnforcer :: "'v world \<Rightarrow> select_case \<Rightarrow> 'v world option" where
  "ttlEnforcer w (Case_TimerC ks now) =
     (case timerC w of
        None \<Rightarrow> None
      | Some t \<Rightarrow>
          if looping w \<and> t \<le> now
          then Some (w\<lparr>cache := evictExpired (cache w) ks now, timerC := None\<rparr>)
          else None)"
| "ttlEnforcer w Case_Done =
     (if looping w \<and> cancelled (cache w) then Some (w\<lparr>looping := False\<rparr>) else None)"

text \<open>
  What happens next in the program: a caller's \<^verbatim>\<open>Set\<close> or \<^verbatim>\<open>Close\<close>, or one iteration
  of the goroutine's loop.
\<close>

datatype 'v event =
    Call_Set string "'v any" "string list" Time Time
  | Call_Close
  | Select select_case

fun step :: "'v world \<Rightarrow> 'v event \<Rightarrow> 'v world option" where
  "step w (Call_Set key value ks evictNow now) =
     Some (w\<lparr>cache := Set (cache w) key value ks evictNow now\<rparr>)"
| "step w Call_Close = Some (w\<lparr>cache := Close (cache w)\<rparr>)"
| "step w (Select sc) = ttlEnforcer w sc"

fun run :: "'v world \<Rightarrow> 'v event list \<Rightarrow> 'v world option" where
  "run w [] = Some w"
| "run w (e # es) = (case step w e of None \<Rightarrow> None | Some w' \<Rightarrow> run w' es)"

text \<open>The number of sweeps (calls of \<^verbatim>\<open>evictExpired\<close>) in a sequence of events.\<close>

fun sweeps :: "'v event list \<Rightarrow> nat" where
  "sweeps [] = 0"
| "sweeps (Select (Case_TimerC ks now) # es) = Suc (sweeps es)"
| "sweeps (e # es) = sweeps es"

text \<open>A sequence of \<^verbatim>\<open>Get\<close> calls, threading the cache.\<close>

fun Gets :: "'v Cache \<Rightarrow> string list \<Rightarrow> 'v Cache" where
  "Gets c [] = c"
| "Gets c (k # ks) = Gets (snd (Get c k)) ks"

text \<open>
  A sequence of \<^verbatim>\<open>Set\<close> calls, each with its key, value, range order and two clock
  readings.
\<close>

type_synonym 'v set_call = "string \<times> 'v any \<times> string list \<times> Time \<times> Time"

fun Sets :: "'v Cache \<Rightarrow> 'v set_call list \<Rightarrow> 'v Cache" where
  "Sets c [] = c"
| "Sets c ((key, value, ks, evictNow, now) # calls) =
     Sets (Set c key value ks evictNow now) calls"

subsection \<open>Sequences of calls on a clock that advances\<close>

text \<open>
  \<open>orders_ok c calls\<close>: the range order given with each call is an order of the keys
  of the table the call finds.
\<close>

fun orders_ok :: "'v Cache \<Rightarrow> 'v set_call list \<Rightarrow> bool" where
  "orders_ok c [] = True"
| "orders_ok c ((key, value, ks, evictNow, now) # calls) =
     (range_order (store c) ks \<and> orders_ok (Set c key value ks evictNow now) calls)"

text \<open>
  \<open>clock_strict t calls\<close>: after the reading \<open>t\<close>, the clock has advanced whenever
  \<^verbatim>\<open>evictLRU\<close> reads it: each call's \<open>evictNow\<close> is later than the stamp of the call before.
\<close>

fun clock_strict :: "Time \<Rightarrow> 'v set_call list \<Rightarrow> bool" where
  "clock_strict t [] = True"
| "clock_strict t ((key, value, ks, evictNow, now) # calls) =
     (t < evictNow \<and> evictNow \<le> now \<and> clock_strict now calls)"

subsection \<open>Concrete caches\<close>

text \<open>The caches that \<^verbatim>\<open>New(1, 100)\<close> and \<^verbatim>\<open>New(2, 100)\<close> return.\<close>

definition empty1 :: "nat Cache" where
  "empty1 = \<lparr>store = Map.empty, size_c = 1, ttl = 100, cancelled = False\<rparr>"

definition empty2 :: "nat Cache" where
  "empty2 = \<lparr>store = Map.empty, size_c = 2, ttl = 100, cancelled = False\<rparr>"

text \<open>
  The second one after \<^verbatim>\<open>Set("a", 1)\<close> at time 10 and \<^verbatim>\<open>Set("b", 2)\<close> at time 20: a
  table at capacity.
\<close>

definition cache_ab :: "nat Cache" where
  "cache_ab =
     \<lparr>store = [''a'' \<mapsto> \<lparr>val = Any 1, time = 10\<rparr>, ''b'' \<mapsto> \<lparr>val = Any 2, time = 20\<rparr>],
      size_c = 2, ttl = 100, cancelled = False\<rparr>"

section \<open>Properties\<close>

subsection \<open>The sweep\<close>

text \<open>
  What the loop of \<^verbatim>\<open>evictExpired\<close> leaves at a key: the keys it visits lose their
  entry when the entry is older than the bound, the others are untouched.
\<close>

lemma fold_evictExpired_step:
  "fold (evictExpired_step d now) ks m k =
     (if k \<in> set ks
      then (case m k of None \<Rightarrow> None
            | Some v \<Rightarrow> if Sub now (time v) > d then None else Some v)
      else m k)"
proof (induction ks arbitrary: m)
  case Nil
  then show ?case by simp
next
  case (Cons a ks)
  have "fold (evictExpired_step d now) (a # ks) m k =
          fold (evictExpired_step d now) ks (evictExpired_step d now a m) k"
    by simp
  also have "\<dots> =
     (if k \<in> set ks
      then (case evictExpired_step d now a m k of None \<Rightarrow> None
            | Some v \<Rightarrow> if Sub now (time v) > d then None else Some v)
      else evictExpired_step d now a m k)"
    by (rule Cons.IH)
  also have "\<dots> =
     (if k \<in> set (a # ks)
      then (case m k of None \<Rightarrow> None
            | Some v \<Rightarrow> if Sub now (time v) > d then None else Some v)
      else m k)"
    by (auto simp: evictExpired_step_def split: option.splits)
  finally show ?case .
qed

text \<open>
  Claim C5. A sweep at time \<open>now\<close>, whatever the order of its range, removes every entry
  whose age \<open>Sub now (time e)\<close> exceeds the ttl and leaves every other entry as it was;
  it adds nothing.
\<close>

theorem evictExpired_removes_exactly_expired:
  assumes "range_order (store c) ks"
  shows "store (evictExpired c ks now) k =
           (case store c k of
              None \<Rightarrow> None
            | Some e \<Rightarrow> if Sub now (time e) > ttl c then None else Some e)"
proof (cases "store c k")
  case None
  then show ?thesis by (simp add: evictExpired_def fold_evictExpired_step)
next
  case (Some e)
  then have "k \<in> set ks" using assms by (auto simp: range_order_def)
  with Some show ?thesis by (simp add: evictExpired_def fold_evictExpired_step)
qed

theorem evictExpired_removes_exactly_expired_witness:
  "range_order (store cache_ab) [''b'', ''a''] \<and>
   store (evictExpired cache_ab [''b'', ''a''] 115) ''a'' = None \<and>
   store (evictExpired cache_ab [''b'', ''a''] 115) ''b'' = Some \<lparr>val = Any 2, time = 20\<rparr>"
proof -
  have h: "range_order (store cache_ab) [''b'', ''a'']"
    by (auto simp: range_order_def cache_ab_def)
  from evictExpired_removes_exactly_expired[OF h, of 115 "''a''"]
       evictExpired_removes_exactly_expired[OF h, of 115 "''b''"] h
  show ?thesis by (simp add: cache_ab_def Sub_def)
qed

text \<open>
  Claim C9. An entry whose age is exactly the ttl survives the sweep: the test of
  \<^verbatim>\<open>evictExpired\<close> is a strict \<open>>\<close>.
\<close>

theorem evictExpired_keeps_age_eq_ttl:
  assumes "store c k = Some e" and "Sub now (time e) = ttl c"
  shows "store (evictExpired c ks now) k = Some e"
  using assms by (simp add: evictExpired_def fold_evictExpired_step)

theorem evictExpired_keeps_age_eq_ttl_witness:
  "store cache_ab ''a'' = Some \<lparr>val = Any 1, time = 10\<rparr> \<and>
   Sub 110 (time \<lparr>val = Any (1::nat), time = 10\<rparr>) = ttl cache_ab \<and>
   store (evictExpired cache_ab [''a'', ''b''] 110) ''a'' = Some \<lparr>val = Any 1, time = 10\<rparr>"
proof -
  have h1: "store cache_ab ''a'' = Some \<lparr>val = Any 1, time = 10\<rparr>"
    by (simp add: cache_ab_def)
  have h2: "Sub 110 (time \<lparr>val = Any (1::nat), time = 10\<rparr>) = ttl cache_ab"
    by (simp add: cache_ab_def Sub_def)
  from evictExpired_keeps_age_eq_ttl[OF h1 h2, of "[''a'', ''b'']"] h1 h2
  show ?thesis by simp
qed

subsection \<open>Get and Set\<close>

text \<open>
  Claim C8. Right after \<^verbatim>\<open>Set(k, v)\<close>, \<^verbatim>\<open>Get(k)\<close> returns \<open>(v, true)\<close>, from every cache
  and whatever the eviction did; and \<^verbatim>\<open>Get(k)\<close> returns \<open>(nil, false)\<close> exactly when
  the table has no entry for \<open>k\<close>.
\<close>

theorem Get_after_Set:
  "fst (Get (Set c k v ks evictNow now) k) = (v, True) \<and>
   (fst (Get c k) = (Nil, False) \<longleftrightarrow> store c k = None)"
  by (simp add: Get_def Set_def Let_def split: option.splits)

theorem Get_after_Set_witness:
  "fst (Get (Set cache_ab ''c'' (Any 3) [''a'', ''b''] 30 30) ''c'') = (Any 3, True) \<and>
   fst (Get cache_ab ''c'') = (Nil, False) \<and> store cache_ab ''c'' = None \<and>
   fst (Get cache_ab ''a'') \<noteq> (Nil, False) \<and> store cache_ab ''a'' \<noteq> None"
  using Get_after_Set[of cache_ab "''c''" "Any 3" "[''a'', ''b'']" 30 30]
        Get_after_Set[of cache_ab "''a''" "Any 3" "[''a'', ''b'']" 30 30]
  by (simp add: cache_ab_def)

text \<open>A sequence of \<^verbatim>\<open>Get\<close> calls returns the cache it was given.\<close>

lemma Gets_id: "Gets c keys = c"
  by (induction keys) (simp_all add: Get_def split: option.splits)

text \<open>
  Claim C6. \<^verbatim>\<open>Get\<close> leaves the cache as it was: values and timestamps, hence the
  choice of every later eviction. The same holds for any sequence of \<^verbatim>\<open>Get\<close> calls.
\<close>

theorem Get_no_side_effect:
  "snd (Get c k) = c \<and> Gets c keys = c \<and>
   evictLRU (Gets c keys) ks now = evictLRU c ks now \<and>
   Set (Gets c keys) k' v ks evictNow now = Set c k' v ks evictNow now"
  by (simp add: Gets_id) (simp add: Get_def split: option.splits)

theorem Get_no_side_effect_witness:
  "snd (Get cache_ab ''a'') = cache_ab \<and>
   Gets cache_ab [''a'', ''a'', ''c''] = cache_ab \<and>
   evictLRU (Gets cache_ab [''a'', ''a'', ''c'']) [''a'', ''b''] 30 =
     evictLRU cache_ab [''a'', ''b''] 30"
  using Get_no_side_effect[of cache_ab "''a''" "[''a'', ''a'', ''c'']" "[''a'', ''b'']" 30]
  by (simp del: Gets.simps)

text \<open>The table after \<^verbatim>\<open>evictLRU\<close>: the key the scan ends with is deleted.\<close>

lemma store_evictLRU:
  "store (evictLRU c ks now) = (store c)(snd (evictLRU_scan (store c) ks now) := None)"
  by (simp add: evictLRU_def split: prod.splits)

text \<open>
  Claim C10. \<^verbatim>\<open>Set(k, v)\<close> on a table below capacity changes no entry of another key.
  On a table at capacity the only other key that can change is the one the scan of
  \<^verbatim>\<open>evictLRU\<close> selects, which is removed. In every case at most one key other than
  \<open>k\<close> is removed and all remaining entries are as they were.
\<close>

theorem Set_frame:
  "(len (store c) < size_c c \<longrightarrow>
      (\<forall>k'. k' \<noteq> k \<longrightarrow> store (Set c k v ks evictNow now) k' = store c k')) \<and>
   (len (store c) = size_c c \<longrightarrow>
      (\<forall>k'. k' \<noteq> k \<longrightarrow> store (Set c k v ks evictNow now) k' =
         (if k' = snd (evictLRU_scan (store c) ks evictNow) then None else store c k'))) \<and>
   (\<exists>r. \<forall>k'. k' \<noteq> k \<longrightarrow> store (Set c k v ks evictNow now) k' =
         (if k' = r then None else store c k'))"
proof (intro conjI impI allI)
  fix k' assume "len (store c) < size_c c" "k' \<noteq> k"
  then show "store (Set c k v ks evictNow now) k' = store c k'"
    by (simp add: Set_def Let_def)
next
  fix k' assume "len (store c) = size_c c" "k' \<noteq> k"
  then show "store (Set c k v ks evictNow now) k' =
         (if k' = snd (evictLRU_scan (store c) ks evictNow) then None else store c k')"
    by (simp add: Set_def Let_def store_evictLRU)
next
  show "\<exists>r. \<forall>k'. k' \<noteq> k \<longrightarrow> store (Set c k v ks evictNow now) k' =
         (if k' = r then None else store c k')"
  proof (cases "len (store c) = size_c c")
    case True
    then show ?thesis
      by (intro exI[of _ "snd (evictLRU_scan (store c) ks evictNow)"])
         (simp add: Set_def Let_def store_evictLRU)
  next
    case False
    then show ?thesis
      by (intro exI[of _ k]) (simp add: Set_def Let_def)
  qed
qed

theorem Set_frame_witness:
  "len (store empty2) < size_c empty2 \<and>
   store (Set empty2 ''a'' (Any 1) [] 10 10) ''b'' = store empty2 ''b'' \<and>
   len (store cache_ab) = size_c cache_ab \<and>
   store (Set cache_ab ''c'' (Any 3) [''a'', ''b''] 30 30) ''a'' = None \<and>
   store (Set cache_ab ''c'' (Any 3) [''a'', ''b''] 30 30) ''b'' =
     Some \<lparr>val = Any 2, time = 20\<rparr>"
proof -
  have below: "len (store empty2) < size_c empty2"
    by (simp add: empty2_def len_def)
  have full: "len (store cache_ab) = size_c cache_ab"
    by (simp add: cache_ab_def len_def)
  have scan: "snd (evictLRU_scan (store cache_ab) [''a'', ''b''] 30) = ''a''"
    by (simp add: cache_ab_def evictLRU_scan_def evictLRU_step_def Before_def)
  from Set_frame[of empty2 "''a''" "Any 1" "[]" 10 10] below
  have 1: "store (Set empty2 ''a'' (Any 1) [] 10 10) ''b'' = store empty2 ''b''"
    by simp
  from Set_frame[of cache_ab "''c''" "Any 3" "[''a'', ''b'']" 30 30] full
  have 2: "\<forall>k'. k' \<noteq> ''c'' \<longrightarrow> store (Set cache_ab ''c'' (Any 3) [''a'', ''b''] 30 30) k' =
         (if k' = ''a'' then None else store cache_ab k')"
    by (simp only: scan) blast
  from 2 have "store (Set cache_ab ''c'' (Any 3) [''a'', ''b''] 30 30) ''a'' = None"
    and "store (Set cache_ab ''c'' (Any 3) [''a'', ''b''] 30 30) ''b'' = store cache_ab ''b''"
    by simp_all
  with below full 1 show ?thesis by (simp add: cache_ab_def)
qed

subsection \<open>Construction\<close>

text \<open>
  Claim C7. \<^verbatim>\<open>New\<close> returns an error exactly when the size or the ttl is not
  positive; an error comes with no cache and no goroutine. Otherwise it returns the
  cache with an empty table, the given size and ttl, and has started the one goroutine
  \<^verbatim>\<open>ttlEnforcer\<close>.
\<close>

theorem New_error_iff:
  "((\<exists>e. (New size' ttl' :: error + ('v Cache \<times> goroutine list)) = Inl e) \<longleftrightarrow>
      size' \<le> 0 \<or> ttl' \<le> 0) \<and>
   (0 < size' \<and> 0 < ttl' \<longrightarrow>
      (New size' ttl' :: error + ('v Cache \<times> goroutine list)) =
        Inr (\<lparr>store = Map.empty, size_c = size', ttl = ttl', cancelled = False\<rparr>, [TtlEnforcer]))"
  by (simp add: New_def)

theorem New_error_iff_witness:
  "(\<exists>e. (New 0 100 :: error + (nat Cache \<times> goroutine list)) = Inl e) \<and>
   (\<exists>e. (New 5 0 :: error + (nat Cache \<times> goroutine list)) = Inl e) \<and>
   New 2 100 = Inr (empty2, [TtlEnforcer])"
  using New_error_iff[of 0 100, where ?'v = nat] New_error_iff[of 5 0, where ?'v = nat]
        New_error_iff[of 2 100, where ?'v = nat]
  by (simp add: empty2_def)

subsection \<open>The scan of evictLRU\<close>

text \<open>
  One iteration keeps the running pair or moves it to the visited key, and then to a
  strictly earlier time.
\<close>

lemma evictLRU_step_cases:
  "evictLRU_step m k acc = acc \<or>
   (\<exists>e. m k = Some e \<and> evictLRU_step m k acc = (time e, k) \<and> time e < fst acc)"
  by (auto simp: evictLRU_step_def Before_def split: option.splits)

lemma fold_evictLRU_step_cases:
  "fold (evictLRU_step m) ks acc = acc \<or>
   (\<exists>k e. k \<in> set ks \<and> m k = Some e \<and>
      fold (evictLRU_step m) ks acc = (time e, k) \<and> time e < fst acc)"
proof (induction ks arbitrary: acc)
  case Nil
  then show ?case by simp
next
  case (Cons a ks)
  let ?acc' = "evictLRU_step m a acc"
  have f: "fold (evictLRU_step m) (a # ks) acc = fold (evictLRU_step m) ks ?acc'"
    by simp
  from evictLRU_step_cases[of m a acc]
  have le: "fst ?acc' \<le> fst acc" by auto
  from Cons.IH[of ?acc'] show ?case
  proof
    assume same: "fold (evictLRU_step m) ks ?acc' = ?acc'"
    from evictLRU_step_cases[of m a acc] show ?thesis
    proof
      assume "?acc' = acc"
      with same f show ?thesis by simp
    next
      assume "\<exists>e. m a = Some e \<and> ?acc' = (time e, a) \<and> time e < fst acc"
      then obtain e where "m a = Some e" "?acc' = (time e, a)" "time e < fst acc" by blast
      with same f show ?thesis by (intro disjI2 exI[of _ a] exI[of _ e]) simp
    qed
  next
    assume "\<exists>k e. k \<in> set ks \<and> m k = Some e \<and>
      fold (evictLRU_step m) ks ?acc' = (time e, k) \<and> time e < fst ?acc'"
    then obtain k e where ke: "k \<in> set ks" "m k = Some e"
      "fold (evictLRU_step m) ks ?acc' = (time e, k)" "time e < fst ?acc'" by blast
    with le f show ?thesis by (intro disjI2 exI[of _ k] exI[of _ e]) simp
  qed
qed

lemma fold_evictLRU_step_le_acc:
  "fst (fold (evictLRU_step m) ks acc) \<le> fst acc"
  using fold_evictLRU_step_cases[of m ks acc] by auto

lemma fold_evictLRU_step_le_entry:
  "k \<in> set ks \<Longrightarrow> m k = Some e \<Longrightarrow> fst (fold (evictLRU_step m) ks acc) \<le> time e"
proof (induction ks arbitrary: acc)
  case Nil
  then show ?case by simp
next
  case (Cons a ks)
  let ?acc' = "evictLRU_step m a acc"
  show ?case
  proof (cases "k \<in> set ks")
    case True
    with Cons show ?thesis by simp
  next
    case False
    with Cons.prems have "a = k" by simp
    with Cons.prems have "fst ?acc' \<le> time e"
      by (simp add: evictLRU_step_def Before_def)
    moreover have "fst (fold (evictLRU_step m) ks ?acc') \<le> fst ?acc'"
      by (rule fold_evictLRU_step_le_acc)
    ultimately show ?thesis by simp
  qed
qed

text \<open>
  When some entry was written before the reading \<open>now\<close> that \<^verbatim>\<open>evictLRU\<close> takes, it
  deletes exactly one entry, and that entry has the least timestamp of the table.
\<close>

lemma evictLRU_removes_oldest:
  assumes ord: "range_order (store c) ks"
    and old: "store c k0 = Some e0" "time e0 < now"
  shows "\<exists>r e. store c r = Some e \<and>
           (\<forall>k' e'. store c k' = Some e' \<longrightarrow> time e \<le> time e') \<and>
           store (evictLRU c ks now) = (store c)(r := None)"
proof -
  let ?res = "fold (evictLRU_step (store c)) ks (now, '''')"
  from ord old have k0: "k0 \<in> set ks" by (auto simp: range_order_def)
  have "fst ?res \<le> time e0"
    using k0 old(1) by (rule fold_evictLRU_step_le_entry[where m = "store c"])
  with old have "?res \<noteq> (now, '''')" by auto
  with fold_evictLRU_step_cases[of "store c" ks "(now, '''')"]
  obtain r e where re: "r \<in> set ks" "store c r = Some e" "?res = (time e, r)"
    by auto
  have "time e \<le> time e'" if "store c k' = Some e'" for k' e'
  proof -
    from that ord have "k' \<in> set ks" by (auto simp: range_order_def)
    then have "fst ?res \<le> time e'"
      using that by (rule fold_evictLRU_step_le_entry[where m = "store c"])
    with re(3) show ?thesis by simp
  qed
  moreover have "store (evictLRU c ks now) = (store c)(r := None)"
    using re(3) by (simp add: store_evictLRU evictLRU_scan_def)
  ultimately show ?thesis using re(2) by blast
qed

text \<open>
  When no entry was written before the reading \<open>now\<close>, the scan ends where it started,
  with the key \<^verbatim>\<open>""\<close>, and \<^verbatim>\<open>evictLRU\<close> deletes that key only.
\<close>

lemma evictLRU_scan_no_older:
  assumes "\<forall>k e. store c k = Some e \<longrightarrow> now \<le> time e"
  shows "evictLRU_scan (store c) ks now = (now, '''')"
proof -
  from fold_evictLRU_step_cases[of "store c" ks "(now, '''')"] assms
  show ?thesis unfolding evictLRU_scan_def by fastforce
qed

lemma evictLRU_no_older:
  assumes "\<forall>k e. store c k = Some e \<longrightarrow> now \<le> time e"
  shows "store (evictLRU c ks now) = (store c)('''' := None)"
  by (simp add: store_evictLRU evictLRU_scan_no_older[OF assms])

subsection \<open>The size of the table\<close>

lemma len_delete:
  assumes "finite (dom m)" "m r = Some e"
  shows "len (m(r := None)) = len m - 1"
proof -
  from assms have "r \<in> dom m" by auto
  with assms(1) have "card (dom m - {r}) = card (dom m) - 1" and "0 < card (dom m)"
    by (auto simp: card_gt_0_iff)
  then show ?thesis by (simp add: len_def)
qed

lemma len_update_le:
  assumes "finite (dom m)"
  shows "len (m(k \<mapsto> e)) \<le> len m + 1"
  using assms by (simp add: len_def card_insert_if)

lemma size_c_Set: "size_c (Set c key v ks evictNow now) = size_c c"
  by (simp add: Set_def Let_def evictLRU_def split: prod.splits)

lemma store_Set_cases:
  assumes "store (Set c key v ks evictNow now) k = Some e"
  shows "(k = key \<and> e = \<lparr>val = v, time = now\<rparr>) \<or> store c k = Some e"
  using assms by (auto simp: Set_def Let_def store_evictLRU split: if_splits)

text \<open>
  One \<^verbatim>\<open>Set\<close> keeps the table within the size when every entry was written before the
  reading that \<^verbatim>\<open>evictLRU\<close> takes.
\<close>

lemma Set_len_le_size:
  assumes ord: "range_order (store c) ks"
    and le: "len (store c) \<le> size_c c" and pos: "0 < size_c c"
    and old: "\<forall>k e. store c k = Some e \<longrightarrow> time e < evictNow"
  shows "len (store (Set c key v ks evictNow now)) \<le> size_c c"
proof -
  from ord have fin: "finite (dom (store c))"
    by (auto simp: range_order_def intro: finite_subset)
  show ?thesis
  proof (cases "len (store c) = size_c c")
    case False
    with le have "len (store c) + 1 \<le> size_c c" by simp
    with len_update_le[OF fin, of key "\<lparr>val = v, time = now\<rparr>"] False
    show ?thesis by (simp add: Set_def Let_def)
  next
    case True
    with pos have "card (dom (store c)) \<noteq> 0" by (simp add: len_def)
    then have "\<exists>k. k \<in> dom (store c)" by (cases "dom (store c) = {}") auto
    then obtain k0 e0 where k0: "store c k0 = Some e0" by blast
    with old have "time e0 < evictNow" by blast
    from evictLRU_removes_oldest[OF ord k0 this]
    obtain r e where re: "store c r = Some e"
      "store (evictLRU c ks evictNow) = (store c)(r := None)" by blast
    have fin': "finite (dom ((store c)(r := None)))" using fin by simp
    have "len ((store c)(r := None)) = len (store c) - 1"
      using fin re(1) by (rule len_delete)
    with len_update_le[OF fin', of key "\<lparr>val = v, time = now\<rparr>"] True re(2)
    show ?thesis by (simp add: Set_def Let_def evictLRU_def)
  qed
qed

text \<open>
  A sequence of \<^verbatim>\<open>Set\<close> calls on a cache made by \<^verbatim>\<open>New\<close> keeps the table within the
  size after every call, when the clock has advanced each time \<^verbatim>\<open>evictLRU\<close> reads it.
\<close>

lemma Sets_len_le_size_aux:
  assumes "orders_ok c calls" "clock_strict t calls"
    and "len (store c) \<le> size_c c" "0 < size_c c"
    and "\<forall>k e. store c k = Some e \<longrightarrow> time e \<le> t"
  shows "len (store (Sets c (take n calls))) \<le> size_c c"
  using assms
proof (induction calls arbitrary: c t n)
  case Nil
  then show ?case by simp
next
  case (Cons call calls)
  obtain key v ks evictNow now where call: "call = (key, v, ks, evictNow, now)"
    by (cases call) auto
  show ?case
  proof (cases n)
    case 0
    with Cons.prems show ?thesis by simp
  next
    case (Suc n')
    let ?c' = "Set c key v ks evictNow now"
    from Cons.prems call have ord: "range_order (store c) ks" "orders_ok ?c' calls"
      and clk: "t < evictNow" "evictNow \<le> now" "clock_strict now calls" by simp_all
    from Cons.prems(5) clk(1) have old: "\<forall>k e. store c k = Some e \<longrightarrow> time e < evictNow"
      by fastforce
    have le': "len (store ?c') \<le> size_c ?c'"
      using Set_len_le_size[OF ord(1) Cons.prems(3,4) old] by (simp add: size_c_Set)
    have pos': "0 < size_c ?c'" using Cons.prems(4) by (simp add: size_c_Set)
    have old': "\<forall>k e. store ?c' k = Some e \<longrightarrow> time e \<le> now"
    proof (intro allI impI)
      fix k e assume "store ?c' k = Some e"
      from store_Set_cases[OF this] Cons.prems(5) clk show "time e \<le> now" by fastforce
    qed
    from Cons.IH[OF ord(2) clk(3) le' pos' old', of n'] Suc call
    show ?thesis by (simp add: size_c_Set)
  qed
qed

lemma Sets_len_le_size:
  assumes "New size' ttl' = Inr (c, gs)" "orders_ok c calls" "clock_strict t calls"
  shows "len (store (Sets c (take n calls))) \<le> size'"
proof -
  from assms(1) have c: "c = \<lparr>store = Map.empty, size_c = size', ttl = ttl', cancelled = False\<rparr>"
    and pos: "0 < size'"
    by (auto simp: New_def split: if_splits)
  from c pos have "len (store c) \<le> size_c c" "0 < size_c c"
    "\<forall>k e. store c k = Some e \<longrightarrow> time e \<le> t" "size_c c = size'"
    by (simp_all add: len_def)
  with Sets_len_le_size_aux[OF assms(2,3), of n] show ?thesis by simp
qed

text \<open>
  Claim C1. The table can exceed the size. With \<^verbatim>\<open>New(1, 100)\<close>, \<^verbatim>\<open>Set("a", 1)\<close> and
  \<^verbatim>\<open>Set("b", 2)\<close> on a clock that reads 5 at every call: the second call finds the
  table at capacity and calls \<^verbatim>\<open>evictLRU\<close>, whose scan starts from \<^verbatim>\<open>time.Now()\<close> and
  finds no entry strictly before it, so it deletes the absent key \<^verbatim>\<open>""\<close>, and the table
  gets a second entry. From then on the length differs from the size, no call evicts
  any more, and a third key gives a third entry.
\<close>

theorem Set_exceeds_size:
  "New 1 100 = Inr (empty1, [TtlEnforcer]) \<and>
   orders_ok empty1 [(''a'', Any 1, [], 5, 5), (''b'', Any 2, [''a''], 5, 5),
                     (''c'', Any 3, [''a'', ''b''], 6, 6)] \<and>
   len (store (Sets empty1 [(''a'', Any 1, [], 5, 5)])) = 1 \<and>
   len (store (Sets empty1 [(''a'', Any 1, [], 5, 5), (''b'', Any 2, [''a''], 5, 5)])) = 2 \<and>
   len (store (Sets empty1 [(''a'', Any 1, [], 5, 5), (''b'', Any 2, [''a''], 5, 5),
                            (''c'', Any 3, [''a'', ''b''], 6, 6)])) = 3 \<and>
   size_c (Sets empty1 [(''a'', Any 1, [], 5, 5), (''b'', Any 2, [''a''], 5, 5),
                        (''c'', Any 3, [''a'', ''b''], 6, 6)]) = 1"
  by (auto simp: New_def empty1_def Set_def len_def Let_def range_order_def
      evictLRU_def evictLRU_scan_def evictLRU_step_def Before_def)

subsection \<open>Eviction on a full table\<close>

text \<open>
  A \<^verbatim>\<open>Set\<close> of a new key on a table at capacity, when some entry was written before
  the reading that \<^verbatim>\<open>evictLRU\<close> takes: exactly one entry is removed, it has the least
  timestamp of the table, and every other entry stays.
\<close>

lemma Set_new_key_evicts_oldest:
  assumes ord: "range_order (store c) ks"
    and full: "len (store c) = size_c c"
    and new: "store c key = None"
    and old: "store c k0 = Some e0" "time e0 < evictNow"
  shows "\<exists>r e. store c r = Some e \<and>
           (\<forall>k' e'. store c k' = Some e' \<longrightarrow> time e \<le> time e') \<and>
           store (Set c key v ks evictNow now) =
             (store c)(r := None, key \<mapsto> \<lparr>val = v, time = now\<rparr>)"
proof -
  from evictLRU_removes_oldest[OF ord old]
  obtain r e where re: "store c r = Some e"
    "\<forall>k' e'. store c k' = Some e' \<longrightarrow> time e \<le> time e'"
    "store (evictLRU c ks evictNow) = (store c)(r := None)" by blast
  from full re(3)
  have "store (Set c key v ks evictNow now) =
          (store c)(r := None, key \<mapsto> \<lparr>val = v, time = now\<rparr>)"
    by (simp add: Set_def Let_def)
  with re(1,2) show ?thesis by blast
qed

text \<open>
  Claim C2. A \<^verbatim>\<open>Set\<close> of a new key on a table at capacity can remove no entry at all.
  With \<^verbatim>\<open>New(1, 100)\<close> and a clock that reads 5 at every call, \<^verbatim>\<open>Set("a", 1)\<close> fills
  the table; \<^verbatim>\<open>Set("b", 2)\<close> then calls \<^verbatim>\<open>evictLRU\<close>, which finds no entry strictly
  before its own reading and deletes the absent key \<^verbatim>\<open>""\<close>: afterwards both \<^verbatim>\<open>"a"\<close>
  and \<^verbatim>\<open>"b"\<close> are retrievable.
\<close>

theorem Set_at_size_evicts_nothing:
  "len (store (Set empty1 ''a'' (Any 1) [] 5 5)) = size_c (Set empty1 ''a'' (Any 1) [] 5 5) \<and>
   range_order (store (Set empty1 ''a'' (Any 1) [] 5 5)) [''a''] \<and>
   store (Set empty1 ''a'' (Any 1) [] 5 5) ''b'' = None \<and>
   fst (Get (Set (Set empty1 ''a'' (Any 1) [] 5 5) ''b'' (Any 2) [''a''] 5 5) ''a'') =
     (Any 1, True) \<and>
   fst (Get (Set (Set empty1 ''a'' (Any 1) [] 5 5) ''b'' (Any 2) [''a''] 5 5) ''b'') =
     (Any 2, True)"
  by (simp add: empty1_def Set_def len_def Let_def range_order_def
      evictLRU_def evictLRU_scan_def evictLRU_step_def Before_def Get_def)

subsection \<open>Overwriting a key\<close>

lemma dom_Set:
  "\<exists>R. (R = {} \<or> (\<exists>r. R = {r})) \<and>
     dom (store (Set c k v ks evictNow now)) = insert k (dom (store c) - R)"
proof (cases "len (store c) = size_c c")
  case True
  then show ?thesis
    by (intro exI[of _ "{snd (evictLRU_scan (store c) ks evictNow)}"])
       (simp add: Set_def Let_def store_evictLRU)
next
  case False
  then show ?thesis
    by (intro exI[of _ "{}"]) (simp add: Set_def Let_def)
qed

lemma card_insert_Diff_bounds:
  assumes "k \<in> D" "R = {} \<or> (\<exists>r. R = {r})"
  shows "int (card D) - 1 \<le> int (card (insert k (D - R))) \<and>
         card (insert k (D - R)) \<le> card D"
proof (cases "finite D")
  case True
  from assms(1) have sub: "insert k (D - R) \<subseteq> D" by auto
  with True have up: "card (insert k (D - R)) \<le> card D" by (rule card_mono)
  from True have fin: "finite (insert k (D - R))" by simp
  have "D - R \<subseteq> insert k (D - R)" by auto
  with fin have "card (D - R) \<le> card (insert k (D - R))" by (rule card_mono)
  moreover have "card D - 1 \<le> card (D - R)"
    using assms(2) True by (auto simp: card_Diff_singleton_if)
  ultimately show ?thesis using up by simp
next
  case False
  from assms(2) have "finite R" by auto
  with False have "infinite (D - R)" by simp
  then have "infinite (insert k (D - R))" by simp
  with False show ?thesis by simp
qed

text \<open>
  Claim C3, as stated, fails: an overwrite on a table at capacity runs the eviction
  like any other \<^verbatim>\<open>Set\<close>. With \<^verbatim>\<open>New(2, 100)\<close>, \<^verbatim>\<open>Set("a", 1)\<close> at time 10 and
  \<^verbatim>\<open>Set("b", 2)\<close> at time 20 fill the table; \<^verbatim>\<open>Set("b", 3)\<close> at time 30 overwrites
  \<^verbatim>\<open>"b"\<close>, evicts \<^verbatim>\<open>"a"\<close>, and the table goes from two entries to one.
\<close>

theorem Set_overwrite_evicts_counterexample:
  "New 2 100 = Inr (empty2, [TtlEnforcer]) \<and>
   Sets empty2 [(''a'', Any 1, [], 10, 10), (''b'', Any 2, [''a''], 20, 20)] = cache_ab \<and>
   range_order (store cache_ab) [''a'', ''b''] \<and>
   len (store cache_ab) = 2 \<and>
   len (store (Set cache_ab ''b'' (Any 3) [''a'', ''b''] 30 30)) = 1 \<and>
   fst (Get cache_ab ''a'') = (Any 1, True) \<and>
   fst (Get (Set cache_ab ''b'' (Any 3) [''a'', ''b''] 30 30) ''a'') = (Nil, False)"
  by (auto simp: New_def empty2_def cache_ab_def Set_def len_def Let_def range_order_def
      evictLRU_def evictLRU_scan_def evictLRU_step_def Before_def Get_def)

text \<open>
  Claim C3, amended. \<^verbatim>\<open>Set(k, v1)\<close> followed by \<^verbatim>\<open>Set(k, v2)\<close> leaves for \<open>k\<close> the one
  entry with value \<open>v2\<close> and the timestamp read by the second call. When the table is
  not at capacity at the second call, the overwrite changes nothing else and the number
  of entries stays the same. When it is at capacity the second call evicts first, as
  every \<^verbatim>\<open>Set\<close> does: the number of entries stays the same or drops by one.
\<close>

theorem Set_overwrite:
  assumes c1: "c1 = Set c k v1 ks1 evictNow1 now1"
    and c2: "c2 = Set c1 k v2 ks2 evictNow2 now2"
  shows "store c2 k = Some \<lparr>val = v2, time = now2\<rparr> \<and>
         (len (store c1) \<noteq> size_c c1 \<longrightarrow>
            store c2 = (store c1)(k \<mapsto> \<lparr>val = v2, time = now2\<rparr>) \<and>
            len (store c2) = len (store c1)) \<and>
         len (store c1) - 1 \<le> len (store c2) \<and> len (store c2) \<le> len (store c1)"
proof -
  have kin: "k \<in> dom (store c1)" by (simp add: c1 Set_def Let_def)
  have a: "store c2 k = Some \<lparr>val = v2, time = now2\<rparr>" by (simp add: c2 Set_def Let_def)
  have b: "store c2 = (store c1)(k \<mapsto> \<lparr>val = v2, time = now2\<rparr>) \<and>
           len (store c2) = len (store c1)" if "len (store c1) \<noteq> size_c c1"
  proof -
    from that have s: "store c2 = (store c1)(k \<mapsto> \<lparr>val = v2, time = now2\<rparr>)"
      by (simp add: c2 Set_def Let_def)
    with kin have "dom (store c2) = dom (store c1)" by auto
    with s show ?thesis by (simp add: len_def)
  qed
  from dom_Set[of c1 k v2 ks2 evictNow2 now2] obtain R where
    R: "R = {} \<or> (\<exists>r. R = {r})" "dom (store c2) = insert k (dom (store c1) - R)"
    unfolding c2 by blast
  from card_insert_Diff_bounds[OF kin R(1)] R(2)
  have "len (store c1) - 1 \<le> len (store c2) \<and> len (store c2) \<le> len (store c1)"
    by (simp add: len_def)
  with a b show ?thesis by blast
qed

theorem Set_overwrite_witness:
  "len (store (Set empty2 ''a'' (Any 1) [] 10 10)) \<noteq> size_c (Set empty2 ''a'' (Any 1) [] 10 10) \<and>
   store (Set (Set empty2 ''a'' (Any 1) [] 10 10) ''a'' (Any 2) [''a''] 20 20) ''a'' =
     Some \<lparr>val = Any 2, time = 20\<rparr> \<and>
   len (store (Set (Set empty2 ''a'' (Any 1) [] 10 10) ''a'' (Any 2) [''a''] 20 20)) =
     len (store (Set empty2 ''a'' (Any 1) [] 10 10))"
proof -
  have ne: "len (store (Set empty2 ''a'' (Any 1) [] 10 10)) \<noteq>
            size_c (Set empty2 ''a'' (Any 1) [] 10 10)"
    by (simp add: empty2_def Set_def Let_def len_def)
  from Set_overwrite[OF refl refl, of empty2 "''a''" "Any 1" "[]" 10 10 "Any 2" "[''a'']" 20 20] ne
  show ?thesis by blast
qed

subsection \<open>The sweeps of the goroutine\<close>

text \<open>Once the timer's value has been received, no event puts one back, and no sweep follows.\<close>

lemma sweeps_Cons: "sweeps (e # es) = sweeps [e] + sweeps es"
proof (cases e)
  case (Select sc)
  then show ?thesis by (cases sc) simp_all
qed simp_all

lemma ttlEnforcer_timerC_None:
  assumes "ttlEnforcer w sc = Some w'" "timerC w = None"
  shows "timerC w' = None \<and> sc = Case_Done"
  using assms by (cases sc) (auto split: if_splits)

lemma step_timerC_None:
  assumes "step w e = Some w'" "timerC w = None"
  shows "timerC w' = None \<and> sweeps [e] = 0"
proof (cases e)
  case (Select sc)
  with assms ttlEnforcer_timerC_None[of w sc w'] show ?thesis by simp
qed (use assms in auto)

lemma run_sweeps_None:
  assumes "run w es = Some w'" "timerC w = None"
  shows "sweeps es = 0"
  using assms
proof (induction es arbitrary: w)
  case Nil
  then show ?case by simp
next
  case (Cons e es)
  from Cons.prems(1) obtain w1 where w1: "step w e = Some w1" "run w1 es = Some w'"
    by (auto split: option.splits)
  from step_timerC_None[OF w1(1) Cons.prems(2)] have "timerC w1 = None" "sweeps [e] = 0"
    by simp_all
  with Cons.IH[OF w1(2)] sweeps_Cons[of e es] show ?case by simp
qed

text \<open>Every run of the program, from any state, has at most one sweep.\<close>

lemma run_sweeps_le_1:
  assumes "run w es = Some w'"
  shows "sweeps es \<le> 1"
  using assms
proof (induction es arbitrary: w)
  case Nil
  then show ?case by simp
next
  case (Cons e es)
  from Cons.prems obtain w1 where w1: "step w e = Some w1" "run w1 es = Some w'"
    by (auto split: option.splits)
  show ?case
  proof (cases "\<exists>ks now. e = Select (Case_TimerC ks now)")
    case True
    then obtain ks now where e: "e = Select (Case_TimerC ks now)" by blast
    with w1(1) have "timerC w1 = None" by (auto split: option.splits if_splits)
    with run_sweeps_None[OF w1(2)] e sweeps_Cons[of e es] show ?thesis by simp
  next
    case False
    then have "sweeps [e] = 0"
      by (cases "[e]" rule: sweeps.cases) auto
    with Cons.IH[OF w1(2)] sweeps_Cons[of e es] show ?thesis by simp
  qed
qed

text \<open>
  Claim C4. The sweeper is not periodic. With \<^verbatim>\<open>New(2, 100)\<close> and the goroutine
  started at time 0, the timer case of the \<^verbatim>\<open>select\<close> is taken once, at time 100 or
  later, and \<^verbatim>\<open>evictExpired\<close> runs. The timer was made by \<^verbatim>\<open>time.NewTimer\<close> and is never
  reset, so its channel stays empty: a second sweep cannot happen, at time 200 or at any
  later time, also after further \<^verbatim>\<open>Set\<close> calls, although \<^verbatim>\<open>Close\<close> has not been called
  (the \<^verbatim>\<open>Done\<close> case cannot be taken either, and the loop blocks).
\<close>

theorem ttlEnforcer_sweeps_once:
  "New 2 100 = Inr (empty2, [TtlEnforcer]) \<and>
   run (ttlEnforcer_start empty2 0) [Select (Case_TimerC [] 100)] =
     Some \<lparr>cache = empty2, timerC = None, looping = True\<rparr> \<and>
   run (ttlEnforcer_start empty2 0)
     [Select (Case_TimerC [] 100), Select (Case_TimerC [] 200)] = None \<and>
   run (ttlEnforcer_start empty2 0)
     [Select (Case_TimerC [] 100), Call_Set ''a'' (Any 1) [] 150 150,
      Select (Case_TimerC [''a''] 1000)] = None \<and>
   run (ttlEnforcer_start empty2 0)
     [Select (Case_TimerC [] 100), Call_Set ''a'' (Any 1) [] 150 150, Select Case_Done] = None"
  by (simp add: New_def empty2_def ttlEnforcer_start_def evictExpired_def Set_def len_def Let_def)

end
